theory Spec2Isabelle
  imports Main "HOL-Library.Multiset" "HOL-Library.Char_ord" "HOL-Library.List_Lexorder"
begin

section \<open>Data model\<close>

text \<open>
  Package \<open>db\<close>: a node and a link as the corpus loader returns them. Go strings are
  byte strings (\<open>string\<close>), Go's \<open>int\<close> is modelled by \<open>int\<close>: every counter of
  this development is bounded by the length of an input slice, far below \<open>2^63\<close>.
  A Go map read at a missing key gives the zero value; a map whose values are slices
  or counters is therefore a total function with default \<open>[]\<close> or \<open>0\<close>, and a map that
  is tested for presence (\<open>v, ok := m[k]\<close>) is a partial function.
\<close>

record Node =
  ID :: string
  File :: string
  Level :: int
  Pos :: int
  Title :: string
  Tags :: "string list"
  Properties :: "string \<rightharpoonup> string"

record Link =
  Source :: string
  Target :: string
  Type :: string

text \<open>Package \<open>graph\<close>: the graph handed to the JSON encoder.\<close>

record GraphNode =
  gn_ID :: string
  gn_Title :: string
  gn_Tags :: "string list"
  gn_LinkCount :: int

record GraphLink =
  gl_Source :: string
  gl_Target :: string

record Graph =
  Nodes :: "GraphNode list"
  Links :: "GraphLink list"

text \<open>
  \<open>nodeTags[id]\<close> followed by the replacement of \<open>nil\<close> by the empty slice: in the
  model a missing key and an empty tag list both read as \<open>[]\<close>.
\<close>

definition tags_of :: "(string \<rightharpoonup> string list) \<Rightarrow> string \<Rightarrow> string list" where
  "tags_of nodeTags i = (case nodeTags i of None \<Rightarrow> [] | Some ts \<Rightarrow> ts)"

section \<open>Global graph projection: \<open>BuildGraph\<close>\<close>

text \<open>The loop \<open>for _, n := range nodes { nodeSet[n.ID] = true }\<close>.\<close>

definition build_nodeSet :: "Node list \<Rightarrow> string \<Rightarrow> bool" where
  "build_nodeSet nodes = foldl (\<lambda>m n. m(ID n := True)) (\<lambda>_. False) nodes"

text \<open>
  One iteration of the counting loop: a link whose two endpoints pass the test bumps
  the counter of its source, then the counter of its target.
\<close>

definition bump_link :: "(string \<Rightarrow> bool) \<Rightarrow> (string \<Rightarrow> int) \<Rightarrow> Link \<Rightarrow> string \<Rightarrow> int" where
  "bump_link present lc l =
     (if present (Source l) \<and> present (Target l)
      then (let lc1 = lc(Source l := lc (Source l) + 1)
            in lc1(Target l := lc1 (Target l) + 1))
      else lc)"

definition count_links :: "(string \<Rightarrow> bool) \<Rightarrow> Link list \<Rightarrow> string \<Rightarrow> int" where
  "count_links present links = foldl (bump_link present) (\<lambda>_. 0) links"

definition keep_links :: "(string \<Rightarrow> bool) \<Rightarrow> Link list \<Rightarrow> GraphLink list" where
  "keep_links present links =
     foldl (\<lambda>acc l. if present (Source l) \<and> present (Target l)
                     then acc @ [\<lparr>gl_Source = Source l, gl_Target = Target l\<rparr>]
                     else acc) [] links"

definition BuildGraph :: "Node list \<Rightarrow> Link list \<Rightarrow> (string \<rightharpoonup> string list) \<Rightarrow> Graph" where
  "BuildGraph nodes links nodeTags =
     (let nodeSet = build_nodeSet nodes;
          linkCount = count_links nodeSet links
      in \<lparr>Nodes = foldl (\<lambda>acc n. acc @ [\<lparr>gn_ID = ID n, gn_Title = Title n,
                                            gn_Tags = tags_of nodeTags (ID n),
                                            gn_LinkCount = linkCount (ID n)\<rparr>]) [] nodes,
          Links = keep_links nodeSet links\<rparr>)"

section \<open>Local (ego) subgraph: \<open>LocalGraph\<close>\<close>

text \<open>
  The adjacency map: every link appends its target to the neighbours of its source and
  its source to the neighbours of its target, whatever the node table holds.
\<close>

definition add_edge :: "(string \<Rightarrow> string list) \<Rightarrow> Link \<Rightarrow> string \<Rightarrow> string list" where
  "add_edge adjacency l =
     (let a1 = adjacency(Source l := adjacency (Source l) @ [Target l])
      in a1(Target l := a1 (Target l) @ [Source l]))"

definition build_adjacency :: "Link list \<Rightarrow> string \<Rightarrow> string list" where
  "build_adjacency links = foldl add_edge (\<lambda>_. []) links"

fun visit_neighbors ::
  "int \<Rightarrow> string list \<Rightarrow> string list \<times> (string \<times> int) list \<Rightarrow> string list \<times> (string \<times> int) list" where
  "visit_neighbors d [] (visited, queue) = (visited, queue)"
| "visit_neighbors d (nb # nbs) (visited, queue) =
     (if nb \<notin> set visited
      then visit_neighbors d nbs (visited @ [nb], queue @ [(nb, d + 1)])
      else visit_neighbors d nbs (visited, queue))"


text \<open>
  The traversal loop. \<open>visit_neighbors\<close> is the inner \<open>for\<close> loop over the
  neighbours of the dequeued entry; \<open>fresh\<close> names the identifiers it discovers. The
  outer loop pops the head of the queue and skips it when its depth has reached the
  bound. The map \<open>visited\<close> only ever holds \<open>true\<close>; it is modelled by the list of
  its keys in the order they were inserted, and \<open>visited[x]\<close> is membership. The loop
  ends because every round either discovers an endpoint of a link or shortens the queue.
\<close>

definition endpoints :: "Link list \<Rightarrow> string set" where
  "endpoints links = Source ` set links \<union> Target ` set links"

fun fresh :: "string list \<Rightarrow> string list \<Rightarrow> string list" where
  "fresh visited [] = []"
| "fresh visited (nb # nbs) =
     (if nb \<notin> set visited then nb # fresh (visited @ [nb]) nbs else fresh visited nbs)"

lemma visit_neighbors_eq:
  "visit_neighbors d nbs (visited, queue) =
     (visited @ fresh visited nbs, queue @ map (\<lambda>n. (n, d + 1)) (fresh visited nbs))"
  by (induction nbs arbitrary: visited queue) simp_all

lemma set_fresh: "set (fresh visited nbs) = set nbs - set visited"
  by (induction nbs arbitrary: visited) auto

lemma add_edge_set:
  "set (add_edge adjacency l x) =
     set (adjacency x) \<union> (if Source l = x then {Target l} else {}) \<union> (if Target l = x then {Source l} else {})"
  by (auto simp: add_edge_def Let_def)

lemma foldl_add_edge_subset:
  "set (foldl add_edge adjacency links x) \<subseteq> set (adjacency x) \<union> endpoints links"
proof (induction links arbitrary: adjacency)
  case Nil
  then show ?case by simp
next
  case (Cons l links)
  have "set (foldl add_edge (add_edge adjacency l) links x)
          \<subseteq> set (add_edge adjacency l x) \<union> endpoints links"
    by (rule Cons.IH)
  also have "\<dots> \<subseteq> set (adjacency x) \<union> endpoints (l # links)"
    by (auto simp: add_edge_set endpoints_def)
  finally show ?case by simp
qed

lemma build_adjacency_endpoints: "set (build_adjacency links x) \<subseteq> endpoints links"
  using foldl_add_edge_subset [of "\<lambda>_. []" links x] by (simp add: build_adjacency_def)

lemma finite_endpoints: "finite (endpoints links)"
  by (simp add: endpoints_def)

function bfs :: "Link list \<Rightarrow> int \<Rightarrow> string list \<Rightarrow> (string \<times> int) list \<Rightarrow> string list" where
  "bfs links depth visited [] = visited"
| "bfs links depth visited ((cid, cdepth) # queue) =
     (if cdepth \<ge> depth then bfs links depth visited queue
      else (case visit_neighbors cdepth (build_adjacency links cid) (visited, queue) of
              (visited', queue') \<Rightarrow> bfs links depth visited' queue'))"
  by pat_completeness auto
termination
proof (relation "inv_image (less_than <*lex*> less_than)
    (\<lambda>(links, depth, visited, queue). (card (endpoints links - set visited), length queue))",
    goal_cases)
  case 1
  show ?case by (intro wf_inv_image wf_lex_prod wf_less_than)
next
  case (2 links depth visited cid cdepth queue)
  show ?case by simp
next
  case (3 links depth visited cid cdepth queue visited' queue')
  let ?new = "fresh visited (build_adjacency links cid)"
  have v': "visited' = visited @ ?new" and q': "queue' = queue @ map (\<lambda>n. (n, cdepth + 1)) ?new"
    using 3 by (simp_all add: visit_neighbors_eq)
  show ?case
  proof (cases "?new = []")
    case True
    then show ?thesis by (simp add: v' q')
  next
    case False
    then obtain w where w: "w \<in> set ?new" by (cases ?new) auto
    then have "w \<in> endpoints links" "w \<notin> set visited"
      using build_adjacency_endpoints [of links cid] by (auto simp: set_fresh)
    then have "endpoints links - set visited' \<subset> endpoints links - set visited"
      using w by (auto simp: v')
    then have "card (endpoints links - set visited') < card (endpoints links - set visited)"
      by (intro psubset_card_mono) (simp_all add: finite_endpoints)
    then show ?thesis by simp
  qed
qed


text \<open>
  \<open>visited_of\<close> is the first half of \<open>LocalGraph\<close>: the queue starts with the focal
  node at depth \<open>0\<close>, which is marked visited, and the loop runs to the end. Then
  \<open>LocalGraph\<close> itself. Go ranges over the map \<open>visited\<close> in an order the language
  leaves open; the model ranges over the keys in insertion order, and nothing below
  depends on the order of \<open>Nodes\<close>.
\<close>

definition visited_of :: "string \<Rightarrow> int \<Rightarrow> Link list \<Rightarrow> string list" where
  "visited_of nodeID depth links = bfs links depth [nodeID] [(nodeID, 0)]"

definition build_nodeMap :: "Node list \<Rightarrow> string \<rightharpoonup> Node" where
  "build_nodeMap nodes = foldl (\<lambda>m n. m(ID n \<mapsto> n)) Map.empty nodes"

definition LocalGraph ::
  "string \<Rightarrow> int \<Rightarrow> Node list \<Rightarrow> Link list \<Rightarrow> (string \<rightharpoonup> string list) \<Rightarrow> Graph" where
  "LocalGraph nodeID depth nodes links nodeTags =
     (let visited = visited_of nodeID depth links;
          nodeMap = build_nodeMap nodes;
          linkCount = count_links (\<lambda>i. i \<in> set visited) links
      in \<lparr>Nodes = foldl (\<lambda>acc i. case nodeMap i of
                                     None \<Rightarrow> acc
                                   | Some n \<Rightarrow> acc @ [\<lparr>gn_ID = ID n, gn_Title = Title n,
                                                         gn_Tags = tags_of nodeTags i,
                                                         gn_LinkCount = linkCount i\<rparr>]) [] visited,
          Links = keep_links (\<lambda>i. i \<in> set visited) links\<rparr>)"

section \<open>Specification-level notions\<close>

text \<open>Small corpora for the concrete instances below.\<close>

definition mk_node :: "string \<Rightarrow> string \<Rightarrow> Node" where
  "mk_node i f = \<lparr>ID = i, File = f, Level = 0, Pos = 0, Title = i, Tags = [],
               Properties = Map.empty\<rparr>"

definition id_link :: "string \<Rightarrow> string \<Rightarrow> Link" where
  "id_link s t = \<lparr>Source = s, Target = t, Type = ''id''\<rparr>"

text \<open>
  The spec's words for the degree: a link qualifies when both endpoints are published;
  the degree of a node counts the qualifying links it is the source of plus those it is
  the target of.
\<close>

definition qualifying :: "Node list \<Rightarrow> Link \<Rightarrow> bool" where
  "qualifying nodes l \<longleftrightarrow> Source l \<in> ID ` set nodes \<and> Target l \<in> ID ` set nodes"

definition degree_in :: "Link list \<Rightarrow> string \<Rightarrow> int" where
  "degree_in ls i = int (length (filter (\<lambda>l. Source l = i) ls)) + int (length (filter (\<lambda>l. Target l = i) ls))"

text \<open>
  The spec's words for the ego graph: two identifiers are neighbours when some link joins
  them in either direction; \<open>hops links n x y\<close> says that \<open>n\<close> such steps lead from
  \<open>x\<close> to \<open>y\<close>; a node is within hop-distance \<open>D\<close> of the focal node when at most
  \<open>D\<close> steps reach it.
\<close>

definition linked :: "Link list \<Rightarrow> string \<Rightarrow> string \<Rightarrow> bool" where
  "linked links x y \<longleftrightarrow>
     (\<exists>l \<in> set links. (Source l = x \<and> Target l = y) \<or> (Source l = y \<and> Target l = x))"

fun hops :: "Link list \<Rightarrow> nat \<Rightarrow> string \<Rightarrow> string \<Rightarrow> bool" where
  "hops links 0 x y \<longleftrightarrow> x = y"
| "hops links (Suc n) x y \<longleftrightarrow> (\<exists>z \<in> endpoints links. linked links x z \<and> hops links n z y)"

definition within_hops :: "Link list \<Rightarrow> string \<Rightarrow> int \<Rightarrow> string \<Rightarrow> bool" where
  "within_hops links focal D y \<longleftrightarrow> 0 \<le> D \<and> (\<exists>n \<in> {0..nat D}. hops links n focal y)"

text \<open>The loop invariant of the traversal.\<close>

definition bfs_inv :: "Link list \<Rightarrow> string \<Rightarrow> int \<Rightarrow> string set \<Rightarrow> (string \<times> int) list \<Rightarrow> bool" where
  "bfs_inv links focal D V Q \<longleftrightarrow>
     focal \<in> V
   \<and> (\<forall>(v, d) \<in> set Q. v \<in> V \<and> 0 \<le> d \<and> d \<le> D \<and> hops links (nat d) focal v
          \<and> \<not> within_hops links focal (d - 1) v)
   \<and> sorted (map snd Q)
   \<and> (\<forall>e \<in> set Q. snd e \<le> snd (hd Q) + 1)
   \<and> (Q \<noteq> [] \<longrightarrow> (\<forall>v. within_hops links focal (snd (hd Q)) v \<longrightarrow> v \<in> V))
   \<and> (\<forall>u \<in> V. u \<in> fst ` set Q \<or> {y. linked links u y} \<subseteq> V \<or> \<not> within_hops links focal (D - 1) u)
   \<and> (\<forall>v \<in> V. within_hops links focal D v)"

section \<open>Properties of the global projection\<close>

lemma foldl_snoc_map: "foldl (\<lambda>acc x. acc @ [f x]) a xs = a @ map f xs"
  by (induction xs arbitrary: a) simp_all

lemma foldl_snoc_filter_map:
  "foldl (\<lambda>acc x. if P x then acc @ [f x] else acc) a xs = a @ map f (filter P xs)"
  by (induction xs arbitrary: a) simp_all

lemma build_nodeSet_gen:
  "foldl (\<lambda>m n. m(ID n := True)) m0 nodes i \<longleftrightarrow> m0 i \<or> i \<in> ID ` set nodes"
  by (induction nodes arbitrary: m0) auto

lemma build_nodeSet_iff: "build_nodeSet nodes i \<longleftrightarrow> i \<in> ID ` set nodes"
  by (simp add: build_nodeSet_def build_nodeSet_gen)

lemma count_links_gen:
  "foldl (bump_link present) lc links i =
     lc i + degree_in (filter (\<lambda>l. present (Source l) \<and> present (Target l)) links) i"
  by (induction links arbitrary: lc) (auto simp: bump_link_def degree_in_def Let_def)

lemma count_links_eq:
  "count_links present links i =
     degree_in (filter (\<lambda>l. present (Source l) \<and> present (Target l)) links) i"
  by (simp add: count_links_def count_links_gen)

lemma keep_links_eq:
  "keep_links present links =
     map (\<lambda>l. \<lparr>gl_Source = Source l, gl_Target = Target l\<rparr>)
         (filter (\<lambda>l. present (Source l) \<and> present (Target l)) links)"
  by (simp add: keep_links_def foldl_snoc_filter_map)

lemma qualifying_fold:
  "(\<lambda>l. Source l \<in> ID ` set nodes \<and> Target l \<in> ID ` set nodes) = qualifying nodes"
  by (simp add: fun_eq_iff qualifying_def)

lemma BuildGraph_Nodes:
  "Nodes (BuildGraph nodes links nodeTags) =
     map (\<lambda>n. \<lparr>gn_ID = ID n, gn_Title = Title n, gn_Tags = tags_of nodeTags (ID n),
               gn_LinkCount = degree_in (filter (qualifying nodes) links) (ID n)\<rparr>) nodes"
  by (simp add: BuildGraph_def Let_def foldl_snoc_map count_links_eq build_nodeSet_iff
      qualifying_fold)

lemma BuildGraph_Links:
  "Links (BuildGraph nodes links nodeTags) =
     map (\<lambda>l. \<lparr>gl_Source = Source l, gl_Target = Target l\<rparr>) (filter (qualifying nodes) links)"
  by (simp add: BuildGraph_def Let_def keep_links_eq build_nodeSet_iff qualifying_fold)

section \<open>Properties of the traversal\<close>

lemma within_hops_iff:
  "within_hops links focal D y \<longleftrightarrow> (\<exists>n. int n \<le> D \<and> hops links n focal y)"
proof
  assume "within_hops links focal D y"
  then obtain n where "0 \<le> D" "n \<le> nat D" "hops links n focal y"
    by (auto simp: within_hops_def)
  then have "int n \<le> D \<and> hops links n focal y" by simp
  then show "\<exists>n. int n \<le> D \<and> hops links n focal y" ..
next
  assume "\<exists>n. int n \<le> D \<and> hops links n focal y"
  then obtain n where "int n \<le> D" "hops links n focal y" by blast
  then have "0 \<le> D" "n \<in> {0..nat D}" "hops links n focal y" by simp_all
  then show "within_hops links focal D y" unfolding within_hops_def by blast
qed

lemma linked_Cons:
  "linked (l # links) x y \<longleftrightarrow>
     (Source l = x \<and> Target l = y) \<or> (Source l = y \<and> Target l = x) \<or> linked links x y"
  by (auto simp: linked_def)

lemma linked_sym: "linked links x y \<Longrightarrow> linked links y x"
  by (auto simp: linked_def)

lemma linked_endpoints: "linked links x y \<Longrightarrow> y \<in> endpoints links"
  by (auto simp: linked_def endpoints_def)

lemma foldl_add_edge_set:
  "set (foldl add_edge adjacency links x) = set (adjacency x) \<union> {y. linked links x y}"
proof (induction links arbitrary: adjacency)
  case Nil
  then show ?case by (simp add: linked_def)
next
  case (Cons l links)
  show ?case
    unfolding foldl_Cons Cons.IH add_edge_set by (auto simp: linked_Cons)
qed

lemma build_adjacency_set: "set (build_adjacency links x) = {y. linked links x y}"
  by (simp add: build_adjacency_def foldl_add_edge_set)

lemma hops_snoc: "hops links n x u \<Longrightarrow> linked links u v \<Longrightarrow> hops links (Suc n) x v"
proof (induction n arbitrary: x)
  case 0
  then show ?case by (auto dest: linked_endpoints)
next
  case (Suc n)
  from Suc.prems(1) obtain z where z: "z \<in> endpoints links" "linked links x z" "hops links n z u"
    by auto
  from Suc.IH [OF z(3) Suc.prems(2)] have "hops links (Suc n) z v" .
  with z(1,2) show ?case by (subst hops.simps) blast
qed

lemma hops_last: "hops links (Suc n) x v \<Longrightarrow> \<exists>u. hops links n x u \<and> linked links u v"
proof (induction n arbitrary: x)
  case 0
  then show ?case by auto
next
  case (Suc n)
  from Suc.prems obtain z where z: "z \<in> endpoints links" "linked links x z" "hops links (Suc n) z v"
    by (subst (asm) hops.simps) blast
  from Suc.IH [OF z(3)] obtain u where u: "hops links n z u" "linked links u v" by blast
  from z(1,2) u(1) have "hops links (Suc n) x u" by auto
  with u(2) show ?case by blast
qed

lemma within_mono: "within_hops links focal k v \<Longrightarrow> k \<le> k' \<Longrightarrow> within_hops links focal k' v"
  unfolding within_hops_iff by (meson order_trans)

lemma within_step:
  "within_hops links focal k u \<Longrightarrow> linked links u v \<Longrightarrow> within_hops links focal (k + 1) v"
  unfolding within_hops_iff
proof -
  assume "\<exists>n. int n \<le> k \<and> hops links n focal u" and l: "linked links u v"
  then obtain n where "int n \<le> k" "hops links n focal u" by blast
  then have "int (Suc n) \<le> k + 1 \<and> hops links (Suc n) focal v"
    using hops_snoc [OF _ l] by simp
  then show "\<exists>n. int n \<le> k + 1 \<and> hops links n focal v" by blast
qed

lemma within_cases:
  assumes "within_hops links focal (k + 1) v" and k: "0 \<le> k"
  shows "within_hops links focal k v \<or> (\<exists>u. within_hops links focal k u \<and> linked links u v)"
proof -
  from assms obtain n where n: "int n \<le> k + 1" "hops links n focal v"
    unfolding within_hops_iff by blast
  show ?thesis
  proof (cases "int n \<le> k")
    case True
    with n(2) show ?thesis unfolding within_hops_iff by blast
  next
    case False
    with n(1) k obtain m where m: "n = Suc m" "int m \<le> k" by (cases n) auto
    from hops_last [OF n(2) [unfolded m(1)]] obtain u where "hops links m focal u" "linked links u v"
      by blast
    with m(2) show ?thesis unfolding within_hops_iff by blast
  qed
qed

lemma within_exact: "0 \<le> d \<Longrightarrow> hops links (nat d) focal v \<Longrightarrow> within_hops links focal d v"
  unfolding within_hops_iff by (rule exI [of _ "nat d"]) simp

lemma within_zero: "within_hops links focal 0 v \<longleftrightarrow> v = focal"
  unfolding within_hops_iff by auto

lemma bfs_inv_init: "0 \<le> D \<Longrightarrow> bfs_inv links focal D {focal} [(focal, 0)]"
  using within_mono [of links focal 0 focal D]
  by (auto simp: bfs_inv_def within_zero) (auto simp: within_hops_iff)

lemma bfs_inv_skip:
  assumes inv: "bfs_inv links focal D V ((v, d) # Q)" and d: "D \<le> d"
  shows "bfs_inv links focal D V Q"
proof -
  from inv have dD: "d = D" using d by (auto simp: bfs_inv_def)
  have hdQ: "snd (hd Q) = D" if "Q \<noteq> []"
  proof -
    from that obtain v' d' Q' where Q: "Q = (v', d') # Q'" by (cases Q) auto
    with inv have "d \<le> d'" "d' \<le> D" by (auto simp: bfs_inv_def)
    with dD Q show ?thesis by simp
  qed
  have nv: "\<not> within_hops links focal (D - 1) v"
    using inv dD by (auto simp: bfs_inv_def)
  show ?thesis
    unfolding bfs_inv_def
  proof (intro conjI)
    show "focal \<in> V" using inv by (simp add: bfs_inv_def)
    show "\<forall>(v, d)\<in>set Q. v \<in> V \<and> 0 \<le> d \<and> d \<le> D \<and> hops links (nat d) focal v
          \<and> \<not> within_hops links focal (d - 1) v"
      using inv by (auto simp: bfs_inv_def)
    show "sorted (map snd Q)" using inv by (simp add: bfs_inv_def)
    show "\<forall>e\<in>set Q. snd e \<le> snd (hd Q) + 1"
    proof
      fix e assume e: "e \<in> set Q"
      then have "Q \<noteq> []" by auto
      from hdQ [OF this] have "snd (hd Q) = D" .
      moreover from e inv have "snd e \<le> D" by (auto simp: bfs_inv_def)
      ultimately show "snd e \<le> snd (hd Q) + 1" by simp
    qed
    show "Q \<noteq> [] \<longrightarrow> (\<forall>v. within_hops links focal (snd (hd Q)) v \<longrightarrow> v \<in> V)"
      using inv hdQ dD by (auto simp: bfs_inv_def)
    show "\<forall>u\<in>V. u \<in> fst ` set Q \<or> {y. linked links u y} \<subseteq> V \<or> \<not> within_hops links focal (D - 1) u"
    proof
      fix u assume "u \<in> V"
      with inv have "u \<in> fst ` set ((v, d) # Q) \<or> {y. linked links u y} \<subseteq> V
          \<or> \<not> within_hops links focal (D - 1) u"
        unfolding bfs_inv_def by blast
      with nv show "u \<in> fst ` set Q \<or> {y. linked links u y} \<subseteq> V \<or> \<not> within_hops links focal (D - 1) u"
        by auto
    qed
    show "\<forall>v\<in>V. within_hops links focal D v" using inv by (simp add: bfs_inv_def)
  qed
qed

lemma sorted_hd_le: "sorted (map snd Q) \<Longrightarrow> e \<in> set Q \<Longrightarrow> snd (hd Q) \<le> snd e"
  by (cases Q) auto

lemma bfs_inv_expand:
  assumes inv: "bfs_inv links focal D V ((v, d) # Q)" and d: "d < D"
    and new: "set new = {y. linked links v y} - V"
  shows "bfs_inv links focal D (V \<union> set new) (Q @ map (\<lambda>n. (n, d + 1)) new)"
proof -
  let ?V = "V \<union> set new" and ?Q = "Q @ map (\<lambda>n. (n, d + 1)) new"
  from inv have focal: "focal \<in> V"
    and entries: "\<And>w k. (w, k) \<in> set ((v, d) # Q) \<Longrightarrow>
        w \<in> V \<and> 0 \<le> k \<and> k \<le> D \<and> hops links (nat k) focal w \<and> \<not> within_hops links focal (k - 1) w"
    and srt: "sorted (map snd ((v, d) # Q))"
    and upper: "\<And>e. e \<in> set Q \<Longrightarrow> snd e \<le> d + 1"
    and ball: "\<And>x. within_hops links focal d x \<Longrightarrow> x \<in> V"
    and expanded: "\<And>u. u \<in> V \<Longrightarrow> u \<in> fst ` set ((v, d) # Q) \<or> {y. linked links u y} \<subseteq> V
        \<or> \<not> within_hops links focal (D - 1) u"
    and sound: "\<And>x. x \<in> V \<Longrightarrow> within_hops links focal D x"
    unfolding bfs_inv_def by auto
  from entries [of v d] have d0: "0 \<le> d" and hv: "hops links (nat d) focal v" by auto
  have lower: "d \<le> snd e" if "e \<in> set Q" for e using srt that by auto
  have range: "d \<le> snd e \<and> snd e \<le> d + 1" if "e \<in> set ?Q" for e
    using that lower [of e] upper [of e] by auto
  have srt': "sorted (map snd ?Q)"
    using srt upper by (auto simp: sorted_append sorted_map comp_def)
  have new_entry: "w \<in> ?V \<and> 0 \<le> d + 1 \<and> d + 1 \<le> D \<and> hops links (nat (d + 1)) focal w
      \<and> \<not> within_hops links focal (d + 1 - 1) w" if w: "w \<in> set new" for w
  proof -
    from w new have lw: "linked links v w" and nw: "w \<notin> V" by auto
    from hops_snoc [OF hv lw] d0 have "hops links (nat (d + 1)) focal w"
      by (simp add: nat_add_distrib)
    moreover from nw ball have "\<not> within_hops links focal d w" by blast
    ultimately show ?thesis using w d d0 by simp
  qed
  show ?thesis
    unfolding bfs_inv_def
  proof (intro conjI)
    show "focal \<in> ?V" using focal by simp
    show "\<forall>(w, k)\<in>set ?Q. w \<in> ?V \<and> 0 \<le> k \<and> k \<le> D \<and> hops links (nat k) focal w
        \<and> \<not> within_hops links focal (k - 1) w"
    proof (clarify, goal_cases)
      case (1 w k)
      then consider "(w, k) \<in> set Q" | "w \<in> set new" "k = d + 1" by auto
      then show ?case
      proof cases
        case 1
        then show ?thesis using entries [of w k] by simp
      next
        case 2
        then show ?thesis using new_entry [of w] by simp
      qed
    qed
    show "sorted (map snd ?Q)" by (rule srt')
    show "\<forall>e\<in>set ?Q. snd e \<le> snd (hd ?Q) + 1"
    proof
      fix e assume e: "e \<in> set ?Q"
      then have "?Q \<noteq> []" by auto
      then have "hd ?Q \<in> set ?Q" by (rule hd_in_set)
      from range [OF this] range [OF e] show "snd e \<le> snd (hd ?Q) + 1" by simp
    qed
    show "?Q \<noteq> [] \<longrightarrow> (\<forall>x. within_hops links focal (snd (hd ?Q)) x \<longrightarrow> x \<in> ?V)"
    proof (intro impI allI)
      fix x assume ne: "?Q \<noteq> []" and x: "within_hops links focal (snd (hd ?Q)) x"
      let ?h = "snd (hd ?Q)"
      from ne have "hd ?Q \<in> set ?Q" by (rule hd_in_set)
      from range [OF this] have h: "d \<le> ?h" "?h \<le> d + 1" by simp_all
      show "x \<in> ?V"
      proof (cases "within_hops links focal d x")
        case True
        then show ?thesis using ball by simp
      next
        case False
        with x h have hd1: "?h = d + 1" by (cases "?h = d") auto
        with x have "within_hops links focal (d + 1) x" by simp
        from within_cases [OF this d0] False obtain u
          where u: "within_hops links focal d u" "linked links u x" by blast
        from u(1) have uV: "u \<in> V" by (rule ball)
        from u(1) d have uD: "within_hops links focal (D - 1) u"
          by (auto intro: within_mono)
        from expanded [OF uV] uD consider "u = v" | "u \<in> fst ` set Q" | "{y. linked links u y} \<subseteq> V"
          by auto
        then show ?thesis
        proof cases
          case 1
          with u(2) new show ?thesis by auto
        next
          case 2
          then obtain k where k: "(u, k) \<in> set Q" by force
          then have "(u, k) \<in> set ?Q" by simp
          from sorted_hd_le [OF srt' this] hd1 have "d + 1 \<le> k" by simp
          moreover from entries [of u k] k have "\<not> within_hops links focal (k - 1) u" by simp
          ultimately have "\<not> within_hops links focal d u"
            using within_mono [of links focal d u "k - 1"] by auto
          with u(1) show ?thesis by simp
        next
          case 3
          with u(2) show ?thesis by auto
        qed
      qed
    qed
    show "\<forall>u\<in>?V. u \<in> fst ` set ?Q \<or> {y. linked links u y} \<subseteq> ?V
        \<or> \<not> within_hops links focal (D - 1) u"
    proof
      fix u assume "u \<in> ?V"
      then consider "u \<in> set new" | "u \<in> V" by auto
      then show "u \<in> fst ` set ?Q \<or> {y. linked links u y} \<subseteq> ?V
          \<or> \<not> within_hops links focal (D - 1) u"
      proof cases
        case 1
        then have "u \<in> fst ` set ?Q" by force
        then show ?thesis by simp
      next
        case 2
        from expanded [OF this] consider "u = v" | "u \<in> fst ` set Q" | "{y. linked links u y} \<subseteq> V"
          | "\<not> within_hops links focal (D - 1) u" by auto
        then show ?thesis
        proof cases
          case 1
          with new show ?thesis by auto
        next
          case 2
          then show ?thesis by auto
        next
          case 3
          then show ?thesis by auto
        next
          case 4
          then show ?thesis by simp
        qed
      qed
    qed
    show "\<forall>x\<in>?V. within_hops links focal D x"
    proof
      fix x assume "x \<in> ?V"
      then consider "x \<in> V" | "x \<in> set new" by auto
      then show "within_hops links focal D x"
      proof cases
        case 1
        then show ?thesis by (rule sound)
      next
        case 2
        from new_entry [OF this] have "0 \<le> d + 1" "hops links (nat (d + 1)) focal x" "d + 1 \<le> D"
          by simp_all
        from within_mono [OF within_exact [OF this(1,2)] this(3)] show ?thesis .
      qed
    qed
  qed
qed

lemma bfs_inv_final:
  assumes inv: "bfs_inv links focal D V []"
  shows "V = {y. within_hops links focal D y}"
proof -
  from inv have focal: "focal \<in> V"
    and expanded: "\<And>u. u \<in> V \<Longrightarrow> {y. linked links u y} \<subseteq> V \<or> \<not> within_hops links focal (D - 1) u"
    and sound: "\<And>x. x \<in> V \<Longrightarrow> within_hops links focal D x"
    unfolding bfs_inv_def by auto
  have complete: "int n \<le> D \<Longrightarrow> hops links n focal y \<Longrightarrow> y \<in> V" for n y
  proof (induction n arbitrary: y)
    case 0
    then show ?case using focal by simp
  next
    case (Suc n)
    from hops_last [OF Suc.prems(2)] obtain u where u: "hops links n focal u" "linked links u y"
      by blast
    from Suc.prems(1) have n: "int n \<le> D - 1" by simp
    then have "u \<in> V" using Suc.IH [OF _ u(1)] by simp
    moreover from n u(1) have "within_hops links focal (D - 1) u"
      unfolding within_hops_iff by blast
    ultimately have "{y. linked links u y} \<subseteq> V" using expanded by blast
    with u(2) show ?case by auto
  qed
  show ?thesis
  proof (intro set_eqI iffI)
    fix y assume "y \<in> V"
    then show "y \<in> {y. within_hops links focal D y}" using sound by simp
  next
    fix y assume "y \<in> {y. within_hops links focal D y}"
    then show "y \<in> V" using complete unfolding within_hops_iff by auto
  qed
qed

lemma bfs_inv_result:
  "bfs_inv links focal D (set visited) queue \<Longrightarrow>
     set (bfs links D visited queue) = {y. within_hops links focal D y}"
proof (induction links D visited queue rule: bfs.induct)
  case (1 links depth visited)
  then show ?case by (simp add: bfs_inv_final)
next
  case (2 links depth visited cid cdepth queue)
  show ?case
  proof (cases "depth \<le> cdepth")
    case True
    with 2 show ?thesis by (simp add: bfs_inv_skip)
  next
    case False
    let ?new = "fresh visited (build_adjacency links cid)"
    have vn: "visit_neighbors cdepth (build_adjacency links cid) (visited, queue) =
        (visited @ ?new, queue @ map (\<lambda>n. (n, cdepth + 1)) ?new)"
      by (rule visit_neighbors_eq)
    have "set ?new = {y. linked links cid y} - set visited"
      by (simp add: set_fresh build_adjacency_set)
    from bfs_inv_expand [OF "2.prems" _ this] False
    have "bfs_inv links focal depth (set (visited @ ?new)) (queue @ map (\<lambda>n. (n, cdepth + 1)) ?new)"
      by simp
    from "2.IH"(2) [OF False vn [symmetric] this] False vn show ?thesis by simp
  qed
qed

lemma bfs_visits_ball:
  "0 \<le> D \<Longrightarrow> set (bfs links D [focal] [(focal, 0)]) = {y. within_hops links focal D y}"
  using bfs_inv_result [of links focal D "[focal]" "[(focal, 0)]"] by (simp add: bfs_inv_init)


section \<open>Properties of the local subgraph\<close>

lemma build_nodeMap_gen_Some:
  "foldl (\<lambda>m n. m(ID n \<mapsto> n)) m0 nodes i = Some n \<Longrightarrow>
     m0 i = Some n \<or> (ID n = i \<and> n \<in> set nodes)"
  by (induction nodes arbitrary: m0) (fastforce split: if_splits)+

lemma build_nodeMap_gen_None:
  "foldl (\<lambda>m n. m(ID n \<mapsto> n)) m0 nodes i = None \<longleftrightarrow> m0 i = None \<and> i \<notin> ID ` set nodes"
  by (induction nodes arbitrary: m0) auto

lemma build_nodeMap_Some: "build_nodeMap nodes i = Some n \<Longrightarrow> ID n = i \<and> n \<in> set nodes"
  using build_nodeMap_gen_Some [of Map.empty nodes i n] by (simp add: build_nodeMap_def)

lemma build_nodeMap_None: "build_nodeMap nodes i = None \<longleftrightarrow> i \<notin> ID ` set nodes"
  by (simp add: build_nodeMap_def build_nodeMap_gen_None)

lemma LocalGraph_Links:
  "Links (LocalGraph x D nodes links nodeTags) =
     map (\<lambda>l. \<lparr>gl_Source = Source l, gl_Target = Target l\<rparr>)
       (filter (\<lambda>l. Source l \<in> set (visited_of x D links) \<and> Target l \<in> set (visited_of x D links)) links)"
  by (simp add: LocalGraph_def Let_def keep_links_eq)

lemma visited_of_depth0: "visited_of x 0 links = [x]"
  by (simp add: visited_of_def)

subsection \<open>Dangling edges\<close>

text \<open>
  Claim C1: in every emitted graph, global or local, the two endpoints of each edge are
  nodes of that graph. \<open>BuildGraph\<close> keeps a link only when both endpoints are in its
  node set (\<open>BuildGraph_no_dangling\<close> below). \<open>LocalGraph\<close> tests the endpoints
  against \<open>visited\<close> only, while it emits a node only for a visited identifier that the
  node table holds: with the single published node \<open>A\<close> and the link \<open>A \<rightarrow> B\<close>, the
  local graph of \<open>A\<close> at depth 1 has the edge \<open>A \<rightarrow> B\<close> and the node \<open>A\<close> alone.
\<close>

theorem LocalGraph_dangling_edge:
  "Links (LocalGraph ''A'' 1 [mk_node ''A'' ''a.org''] [id_link ''A'' ''B''] Map.empty)
     = [\<lparr>gl_Source = ''A'', gl_Target = ''B''\<rparr>]
   \<and> map gn_ID (Nodes (LocalGraph ''A'' 1 [mk_node ''A'' ''a.org''] [id_link ''A'' ''B''] Map.empty))
     = [''A'']"
  by (simp add: LocalGraph_def visited_of_def build_adjacency_def add_edge_def
      keep_links_def build_nodeMap_def mk_node_def id_link_def Let_def)

lemma BuildGraph_no_dangling:
  "gl \<in> set (Links (BuildGraph nodes links nodeTags)) \<Longrightarrow>
     gl_Source gl \<in> gn_ID ` set (Nodes (BuildGraph nodes links nodeTags))
   \<and> gl_Target gl \<in> gn_ID ` set (Nodes (BuildGraph nodes links nodeTags))"
  by (auto simp: BuildGraph_Nodes BuildGraph_Links qualifying_def image_iff)

subsection \<open>The visited set\<close>

text \<open>
  Claim C2: for a non-negative depth \<open>D\<close> the traversal visits exactly the identifiers
  within undirected hop-distance \<open>D\<close> of the focal node, over the whole link list and
  whatever the node table holds (\<open>visited_of\<close> does not read it). With the links
  \<open>A \<rightarrow> B\<close> and \<open>B \<rightarrow> C\<close>, depth 1 from \<open>B\<close> visits \<open>A\<close>, \<open>B\<close>, \<open>C\<close>, and depth 1 from
  \<open>A\<close> visits \<open>A\<close> and \<open>B\<close> but not \<open>C\<close>.
\<close>

theorem ego_visited_within_depth:
  "0 \<le> D \<Longrightarrow>
     set (visited_of focal D links) = {y. within_hops links focal D y}
   \<and> set (visited_of ''B'' 1 [id_link ''A'' ''B'', id_link ''B'' ''C'']) = {''A'', ''B'', ''C''}
   \<and> set (visited_of ''A'' 1 [id_link ''A'' ''B'', id_link ''B'' ''C'']) = {''A'', ''B''}
   \<and> ''C'' \<notin> set (visited_of ''A'' 1 [id_link ''A'' ''B'', id_link ''B'' ''C''])"
proof (intro conjI)
  assume "0 \<le> D"
  then show "set (visited_of focal D links) = {y. within_hops links focal D y}"
    unfolding visited_of_def by (rule bfs_visits_ball)
next
  show "set (visited_of ''B'' 1 [id_link ''A'' ''B'', id_link ''B'' ''C'']) = {''A'', ''B'', ''C''}"
    by (simp add: visited_of_def build_adjacency_def add_edge_def id_link_def) blast
next
  have "visited_of ''A'' 1 [id_link ''A'' ''B'', id_link ''B'' ''C''] = [''A'', ''B'']"
    by (simp add: visited_of_def build_adjacency_def add_edge_def id_link_def)
  then show "set (visited_of ''A'' 1 [id_link ''A'' ''B'', id_link ''B'' ''C'']) = {''A'', ''B''}"
    and "''C'' \<notin> set (visited_of ''A'' 1 [id_link ''A'' ''B'', id_link ''B'' ''C''])"
    by simp_all
qed

theorem ego_visited_within_depth_witness:
  "(0::int) \<le> 2
   \<and> {y. within_hops [id_link ''A'' ''B'', id_link ''B'' ''C'', id_link ''D'' ''C'', id_link ''D'' ''E''] ''A'' 2 y}
       = {''A'', ''B'', ''C''}"
proof -
  have "visited_of ''A'' 2 [id_link ''A'' ''B'', id_link ''B'' ''C'', id_link ''D'' ''C'', id_link ''D'' ''E'']
      = [''A'', ''B'', ''C'']"
    by (simp add: visited_of_def build_adjacency_def add_edge_def id_link_def)
  with ego_visited_within_depth [of 2 "''A''"
      "[id_link ''A'' ''B'', id_link ''B'' ''C'', id_link ''D'' ''C'', id_link ''D'' ''E'']"]
  show ?thesis by simp
qed

subsection \<open>Depth zero\<close>

text \<open>
  Claim C3 says that the local graph at depth 0 has exactly one node and no edge. It
  fails in two ways: a link from \<open>X\<close> to itself joins two visited identifiers and is
  emitted, and a focal identifier that the node table does not hold yields no node.
\<close>

theorem LocalGraph_depth0_counterexample:
  "Links (LocalGraph ''X'' 0 [mk_node ''X'' ''x.org''] [id_link ''X'' ''X''] Map.empty)
     = [\<lparr>gl_Source = ''X'', gl_Target = ''X''\<rparr>]
   \<and> Nodes (LocalGraph ''Y'' 0 [mk_node ''X'' ''x.org''] [] Map.empty) = []"
  by (simp add: LocalGraph_def visited_of_def keep_links_def build_nodeMap_def mk_node_def
      id_link_def Let_def)

text \<open>
  Claim C3 as amended: when the focal identifier \<open>X\<close> is in the node table, the local
  graph at depth 0 has exactly one node, \<open>X\<close>, and its edges are exactly the links from
  \<open>X\<close> to \<open>X\<close>; it has no edge when \<open>X\<close> does not link to itself.
\<close>

theorem LocalGraph_depth0:
  "X \<in> ID ` set nodes \<Longrightarrow>
     map gn_ID (Nodes (LocalGraph X 0 nodes links nodeTags)) = [X]
   \<and> Links (LocalGraph X 0 nodes links nodeTags)
       = map (\<lambda>l. \<lparr>gl_Source = X, gl_Target = X\<rparr>) (filter (\<lambda>l. Source l = X \<and> Target l = X) links)"
proof
  assume X: "X \<in> ID ` set nodes"
  then obtain n where n: "build_nodeMap nodes X = Some n"
    using build_nodeMap_None [of nodes X] by (cases "build_nodeMap nodes X") auto
  with build_nodeMap_Some [OF n]
  show "map gn_ID (Nodes (LocalGraph X 0 nodes links nodeTags)) = [X]"
    by (simp add: LocalGraph_def Let_def visited_of_depth0)
next
  show "Links (LocalGraph X 0 nodes links nodeTags)
       = map (\<lambda>l. \<lparr>gl_Source = X, gl_Target = X\<rparr>) (filter (\<lambda>l. Source l = X \<and> Target l = X) links)"
    by (simp add: LocalGraph_Links visited_of_depth0)
qed

theorem LocalGraph_depth0_witness:
  "''X'' \<in> ID ` set [mk_node ''W'' ''w.org'', mk_node ''X'' ''x.org'']
   \<and> map gn_ID (Nodes (LocalGraph ''X'' 0 [mk_node ''W'' ''w.org'', mk_node ''X'' ''x.org'']
         [id_link ''W'' ''X'', id_link ''X'' ''W''] Map.empty)) = [''X'']
   \<and> Links (LocalGraph ''X'' 0 [mk_node ''W'' ''w.org'', mk_node ''X'' ''x.org'']
         [id_link ''W'' ''X'', id_link ''X'' ''W''] Map.empty) = []"
  using LocalGraph_depth0 [of "''X''" "[mk_node ''W'' ''w.org'', mk_node ''X'' ''x.org'']"
      "[id_link ''W'' ''X'', id_link ''X'' ''W'']" Map.empty]
  by (simp add: mk_node_def id_link_def)

subsection \<open>Degrees in the global projection\<close>

text \<open>
  Claim C4: the edges of the global projection are the qualifying links (both endpoints
  published), and the \<open>linkCount\<close> of every node is the number of qualifying links it
  is the source of plus the number it is the target of, so a qualifying link from a node
  to itself counts twice; links that do not qualify are not counted.
\<close>

theorem BuildGraph_linkCount:
  "Links (BuildGraph nodes links nodeTags)
     = map (\<lambda>l. \<lparr>gl_Source = Source l, gl_Target = Target l\<rparr>) (filter (qualifying nodes) links)
   \<and> map gn_ID (Nodes (BuildGraph nodes links nodeTags)) = map ID nodes
   \<and> (\<forall>gn \<in> set (Nodes (BuildGraph nodes links nodeTags)).
        gn_LinkCount gn
          = int (length (filter (\<lambda>l. qualifying nodes l \<and> Source l = gn_ID gn) links))
          + int (length (filter (\<lambda>l. qualifying nodes l \<and> Target l = gn_ID gn) links)))"
  by (auto simp: BuildGraph_Nodes BuildGraph_Links degree_in_def comp_def conj_commute)

theorem BuildGraph_linkCount_witness:
  "map gn_LinkCount (Nodes (BuildGraph [mk_node ''A'' ''a.org'', mk_node ''B'' ''b.org'']
       [id_link ''A'' ''A'', id_link ''A'' ''B'', id_link ''B'' ''Z'', id_link ''Z'' ''A''] Map.empty))
     = [3, 1]"
  using BuildGraph_linkCount [of "[mk_node ''A'' ''a.org'', mk_node ''B'' ''b.org'']"
      "[id_link ''A'' ''A'', id_link ''A'' ''B'', id_link ''B'' ''Z'', id_link ''Z'' ''A'']" Map.empty]
  by (simp add: BuildGraph_Nodes degree_in_def qualifying_def mk_node_def id_link_def)


end
